theory Spec2Isabelle
  imports Main "HOL-Library.Multiset"
begin

section \<open>The Sudoku core of \<open>src/main.py\<close>\<close>

text \<open>
  The program keeps a board as a Python list of nine lists of nine integers, \<open>0\<close> for an
  empty cell, and mutates it in place. Here a board is a list of integer lists, every
  function that writes to the board returns the board it leaves behind, and an index
  that Python would refuse is the value \<open>Inl IndexError\<close>. Row and column indices are
  natural numbers: the program only produces them from \<open>range(9)\<close> and \<open>divmod\<close>.
\<close>

type_synonym Board = "int list list"

datatype error = IndexError

subsection \<open>Reading and writing a cell\<close>

text \<open>\<open>board[r][c]\<close>\<close>

definition cell :: "Board \<Rightarrow> nat \<Rightarrow> nat \<Rightarrow> error + int" where
  "cell board r c =
     (if r < length board \<and> c < length (board ! r) then Inr (board ! r ! c)
      else Inl IndexError)"

text \<open>\<open>board[r][c] = v\<close>\<close>

definition set_cell :: "Board \<Rightarrow> nat \<Rightarrow> nat \<Rightarrow> int \<Rightarrow> error + Board" where
  "set_cell board r c v =
     (if r < length board \<and> c < length (board ! r)
      then Inr (board[r := (board ! r)[c := v]])
      else Inl IndexError)"

text \<open>
  The three scans of the program (\<open>find_empty\<close>, the column test and the box test of
  \<open>is_safe\<close>) visit cells in a fixed order and return at the first cell whose value
  passes a test. \<open>first_hit\<close> is that loop: the cells in the order visited, the test,
  and the first cell found.
\<close>

fun first_hit :: "Board \<Rightarrow> (int \<Rightarrow> bool) \<Rightarrow> (nat \<times> nat) list \<Rightarrow> error + (nat \<times> nat) option" where
  "first_hit board P [] = Inr None"
| "first_hit board P ((r, c) # cells) =
     (case cell board r c of
        Inl e \<Rightarrow> Inl e
      | Inr v \<Rightarrow> if P v then Inr (Some (r, c)) else first_hit board P cells)"

subsection \<open>\<open>find_empty\<close>\<close>

text \<open>\<open>for r in range(9): for c in range(9)\<close>: the cells in row-major order.\<close>

definition all_cells :: "(nat \<times> nat) list" where
  "all_cells = concat (map (\<lambda>r. map (\<lambda>c. (r, c)) [0..<9]) [0..<9])"

definition find_empty :: "Board \<Rightarrow> error + (nat \<times> nat) option" where
  "find_empty board = first_hit board (\<lambda>v. v = 0) all_cells"

subsection \<open>\<open>is_safe\<close>\<close>

definition box_cells :: "nat \<Rightarrow> nat \<Rightarrow> (nat \<times> nat) list" where
  "box_cells box_row box_col =
     concat (map (\<lambda>r. map (\<lambda>c. (r, c)) [box_col..<box_col + 3]) [box_row..<box_row + 3])"

definition is_safe :: "Board \<Rightarrow> nat \<Rightarrow> nat \<Rightarrow> int \<Rightarrow> error + bool" where
  "is_safe board row col num =
     (if \<not> row < length board then Inl IndexError
      else if num \<in> set (board ! row) then Inr False
      else case first_hit board (\<lambda>v. v = num) (map (\<lambda>x. (x, col)) [0..<9]) of
        Inl e \<Rightarrow> Inl e
      | Inr (Some _) \<Rightarrow> Inr False
      | Inr None \<Rightarrow>
          (case first_hit board (\<lambda>v. v = num) (box_cells (3 * (row div 3)) (3 * (col div 3))) of
             Inl e \<Rightarrow> Inl e
           | Inr (Some _) \<Rightarrow> Inr False
           | Inr None \<Rightarrow> Inr True))"

subsection \<open>Empty cells of a board, for the termination of the searches\<close>

definition zeros :: "Board \<Rightarrow> nat" where
  "zeros board = sum_list (map (\<lambda>row. count_list row 0) board)"

lemma count_list_update:
  "i < length xs \<Longrightarrow>
   count_list (xs[i := v]) a + (if xs ! i = a then 1 else 0) = count_list xs a + (if v = a then 1 else 0)"
proof (induction xs arbitrary: i)
  case Nil then show ?case by simp
next
  case (Cons x xs)
  show ?case
  proof (cases i)
    case 0 then show ?thesis by simp
  next
    case (Suc j)
    with Cons.prems have "j < length xs" by simp
    from Cons.IH [OF this] Suc show ?thesis by (simp split: if_splits)
  qed
qed

lemma sum_list_map_update:
  fixes f :: "'a \<Rightarrow> nat"
  shows "i < length xs \<Longrightarrow> sum_list (map f (xs[i := y])) + f (xs ! i) = sum_list (map f xs) + f y"
proof (induction xs arbitrary: i)
  case Nil then show ?case by simp
next
  case (Cons x xs) then show ?case by (cases i) auto
qed

lemma zeros_set_cell:
  assumes "set_cell board r c v = Inr board'"
  shows "\<exists>w. cell board r c = Inr w \<and>
           zeros board' + (if w = 0 then 1 else 0) = zeros board + (if v = 0 then 1 else 0)"
proof -
  from assms have r: "r < length board" and c: "c < length (board ! r)"
    and b': "board' = board[r := (board ! r)[c := v]]"
    by (auto simp: set_cell_def split: if_splits)
  have "zeros board' + count_list (board ! r) 0 = zeros board + count_list ((board ! r)[c := v]) 0"
    unfolding zeros_def b' using sum_list_map_update [OF r, of "\<lambda>row. count_list row 0"] by simp
  with count_list_update [OF c, of v 0]
  have "zeros board' + (if board ! r ! c = 0 then 1 else 0) = zeros board + (if v = 0 then 1 else 0)"
    by (simp split: if_splits)
  moreover from r c have "cell board r c = Inr (board ! r ! c)" by (simp add: cell_def)
  ultimately show ?thesis by blast
qed

lemma first_hit_Some:
  "first_hit board P cells = Inr (Some (r, c)) \<Longrightarrow> \<exists>v. cell board r c = Inr v \<and> P v"
  by (induction board P cells rule: first_hit.induct) (auto split: sum.splits if_splits)

lemma find_empty_Some: "find_empty board = Inr (Some (r, c)) \<Longrightarrow> cell board r c = Inr 0"
  unfolding find_empty_def by (drule first_hit_Some) simp

lemma set_cell_undo:
  assumes "cell board r c = Inr 0" "set_cell board r c v = Inr board1" "set_cell board1 r c 0 = Inr board3"
  shows "board3 = board"
proof -
  from assms have r: "r < length board" and c: "c < length (board ! r)" and z: "board ! r ! c = 0"
    and b1: "board1 = board[r := (board ! r)[c := v]]"
    by (auto simp: cell_def set_cell_def split: if_splits)
  from assms(3) r c have "board3 = board[r := (board ! r)[c := 0]]"
    by (auto simp: b1 set_cell_def split: if_splits)
  also have "(board ! r)[c := 0] = board ! r" using z list_update_id [of "board ! r" c] by simp
  finally show ?thesis by simp
qed

lemma set_cell_cell0: "set_cell board r c 0 = Inr board' \<Longrightarrow> cell board' r c = Inr 0"
  by (auto simp: set_cell_def cell_def split: if_splits)

lemma set_cell_twice:
  "set_cell board r c v = Inr board1 \<Longrightarrow> set_cell board1 r c w = Inr board3 \<Longrightarrow>
   set_cell board r c w = Inr board3"
  by (auto simp: set_cell_def split: if_splits)

subsection \<open>\<open>solve_backtracking\<close>\<close>

text \<open>
  The result is the returned boolean and the board as the call leaves it.
  \<open>solve_loop\<close> is the \<open>for num in range(1, 10)\<close> loop over the candidates still to try.
\<close>

function solve_backtracking :: "Board \<Rightarrow> error + (bool \<times> Board)"
  and solve_loop :: "Board \<Rightarrow> nat \<Rightarrow> nat \<Rightarrow> int list \<Rightarrow> error + (bool \<times> Board)" where
  "solve_backtracking board =
     (case find_empty board of
        Inl e \<Rightarrow> Inl e
      | Inr None \<Rightarrow> Inr (True, board)
      | Inr (Some (r, c)) \<Rightarrow> solve_loop board r c [1..9])"
| "solve_loop board r c [] = Inr (False, board)"
| "solve_loop board r c (num # nums) =
     (case is_safe board r c num of
        Inl e \<Rightarrow> Inl e
      | Inr False \<Rightarrow> solve_loop board r c nums
      | Inr True \<Rightarrow>
          (case set_cell board r c num of
             Inl e \<Rightarrow> Inl e
           | Inr board1 \<Rightarrow>
               (case solve_backtracking board1 of
                  Inl e \<Rightarrow> Inl e
                | Inr (True, board2) \<Rightarrow> Inr (True, board2)
                | Inr (False, board2) \<Rightarrow>
                    (case set_cell board2 r c 0 of
                       Inl e \<Rightarrow> Inl e
                     | Inr board3 \<Rightarrow> solve_loop board3 r c nums))))"
  by pat_completeness auto


text \<open>
  A failed search hands the board back as it received it; the loops of the program rely on
  it, and so does their termination.
\<close>

lemma solve_fail_partial:
  "solve_backtracking_solve_loop_dom (Inl board) \<Longrightarrow>
     solve_backtracking board = Inr (False, board') \<Longrightarrow> board' = board"
  "solve_backtracking_solve_loop_dom (Inr (board, r, c, nums)) \<Longrightarrow>
     cell board r c = Inr 0 \<Longrightarrow> solve_loop board r c nums = Inr (False, board') \<Longrightarrow> board' = board"
proof (induction board and board r c nums arbitrary: board' and board'
       rule: solve_backtracking_solve_loop.pinduct)
  case (1 board)
  from 1(3) 1(1) obtain r c where fe: "find_empty board = Inr (Some (r, c))"
    and l: "solve_loop board r c [1..9] = Inr (False, board')"
    by (simp add: solve_backtracking.psimps split: sum.splits option.splits prod.splits)
  from 1(2) [OF fe refl refl find_empty_Some [OF fe] l] show ?case .
next
  case (2 board r c)
  from 2(3) 2(1) show ?case by (simp add: solve_loop.psimps)
next
  case (3 board r c num nums)
  show ?case
  proof (cases "is_safe board r c num")
    case (Inl e)
    with 3(1,6) show ?thesis by (simp add: solve_loop.psimps)
  next
    case (Inr ok)
    show ?thesis
    proof (cases ok)
      case False
      with Inr have safe: "is_safe board r c num = Inr False" by simp
      with 3(1,6) have "solve_loop board r c nums = Inr (False, board')"
        by (simp add: solve_loop.psimps)
      from 3(4) [OF safe refl 3(5) this] show ?thesis .
    next
      case True
      with Inr have safe: "is_safe board r c num = Inr True" by simp
      with 3(1,6) obtain board1 board2 board3 where
        s1: "set_cell board r c num = Inr board1" and
        s2: "solve_backtracking board1 = Inr (False, board2)" and
        s3: "set_cell board2 r c 0 = Inr board3" and
        s4: "solve_loop board3 r c nums = Inr (False, board')"
        by (auto simp: solve_loop.psimps split: sum.splits bool.splits)
      from 3(2) [OF safe refl s1 s2] have b2: "board2 = board1" .
      from set_cell_undo [OF 3(5) s1 s3 [unfolded b2]] have b3: "board3 = board" .
      from 3(3) [OF safe refl s1 s2 refl refl s3] b3 3(5) s4 show ?thesis by simp
    qed
  qed
qed

definition solve_measure1 :: "Board + Board \<times> nat \<times> nat \<times> int list \<Rightarrow> nat" where
  "solve_measure1 x =
     (case x of
        Inl board \<Rightarrow> 2 * zeros board + 1
      | Inr (board, r, c, nums) \<Rightarrow>
          2 * (zeros board + (if cell board r c = Inr 0 then 0 else 1)) + (if 0 \<in> set nums then 2 else 0))"

definition solve_measure2 :: "Board + Board \<times> nat \<times> nat \<times> int list \<Rightarrow> nat" where
  "solve_measure2 x = (case x of Inl board \<Rightarrow> 0 | Inr (board, r, c, nums) \<Rightarrow> length nums)"

termination solve_backtracking
proof (relation "measures [solve_measure1, solve_measure2]", goal_cases)
  case 1
  show ?case by simp
next
  case (2 board b x r c)
  then have "cell board r c = Inr 0" by (simp add: find_empty_Some)
  then show ?case by (simp add: solve_measure1_def)
next
  case (3 board r c num nums ok board1)
  from zeros_set_cell [OF 3(3)] obtain w where w: "cell board r c = Inr w"
    and z: "zeros board1 + (if w = 0 then 1 else 0) = zeros board + (if num = 0 then 1 else 0)"
    by blast
  have "solve_measure1 (Inl board1) < solve_measure1 (Inr (board, r, c, num # nums))"
    using z by (cases "w = 0"; cases "num = 0") (simp_all add: solve_measure1_def w)
  then show ?case by simp
next
  case (4 board r c num nums ok board1 res ok2 board2 board3)
  then have s1: "set_cell board r c num = Inr board1"
    and s2: "solve_backtracking board1 = Inr (False, board2)"
    and s3: "set_cell board2 r c 0 = Inr board3"
    and d: "solve_backtracking_solve_loop_dom (Inl board1)"
    by simp_all
  from solve_fail_partial(1) [OF d s2] have b2: "board2 = board1" .
  from set_cell_twice [OF s1 s3 [unfolded b2]] have s: "set_cell board r c 0 = Inr board3" .
  from zeros_set_cell [OF s] obtain w where w: "cell board r c = Inr w"
    and z: "zeros board3 + (if w = 0 then 1 else 0) = zeros board + 1"
    by auto
  have "solve_measure1 (Inr (board3, r, c, nums)) \<le> solve_measure1 (Inr (board, r, c, num # nums))"
    using z by (cases "w = 0") (simp_all add: solve_measure1_def w set_cell_cell0 [OF s])
  moreover have "solve_measure2 (Inr (board3, r, c, nums)) < solve_measure2 (Inr (board, r, c, num # nums))"
    by (simp add: solve_measure2_def)
  ultimately show ?case by auto
next
  case (5 board r c num nums ok)
  then show ?case by (simp add: solve_measure1_def solve_measure2_def)
qed

subsection \<open>\<open>count_solutions\<close>\<close>

text \<open>
  The result is the returned count and the board as the call leaves it. \<open>count_loop\<close>
  is the \<open>for num in range(1, 10)\<close> loop: \<open>cnt\<close> is the running total \<open>count\<close> and the list
  holds the candidates still to try; \<open>break\<close> returns the total at once.
\<close>

function count_solutions :: "Board \<Rightarrow> int \<Rightarrow> error + (int \<times> Board)"
  and count_loop :: "Board \<Rightarrow> int \<Rightarrow> nat \<Rightarrow> nat \<Rightarrow> int \<Rightarrow> int list \<Rightarrow> error + (int \<times> Board)" where
  "count_solutions board limit =
     (case find_empty board of
        Inl e \<Rightarrow> Inl e
      | Inr None \<Rightarrow> Inr (1, board)
      | Inr (Some (r, c)) \<Rightarrow> count_loop board limit r c 0 [1..9])"
| "count_loop board limit r c cnt [] = Inr (cnt, board)"
| "count_loop board limit r c cnt (num # nums) =
     (case is_safe board r c num of
        Inl e \<Rightarrow> Inl e
      | Inr False \<Rightarrow> count_loop board limit r c cnt nums
      | Inr True \<Rightarrow>
          (case set_cell board r c num of
             Inl e \<Rightarrow> Inl e
           | Inr board1 \<Rightarrow>
               (case count_solutions board1 limit of
                  Inl e \<Rightarrow> Inl e
                | Inr (n, board2) \<Rightarrow>
                    (case set_cell board2 r c 0 of
                       Inl e \<Rightarrow> Inl e
                     | Inr board3 \<Rightarrow>
                         if cnt + n \<ge> limit then Inr (cnt + n, board3)
                         else count_loop board3 limit r c (cnt + n) nums))))"
  by pat_completeness auto

lemma count_board_partial:
  "count_solutions_count_loop_dom (Inl (board, limit)) \<Longrightarrow>
     count_solutions board limit = Inr (n, board') \<Longrightarrow> board' = board"
  "count_solutions_count_loop_dom (Inr (board, limit, r, c, cnt, nums)) \<Longrightarrow>
     cell board r c = Inr 0 \<Longrightarrow> count_loop board limit r c cnt nums = Inr (n, board') \<Longrightarrow>
     board' = board"
proof (induction board limit and board limit r c cnt nums arbitrary: n board' and n board'
       rule: count_solutions_count_loop.pinduct)
  case (1 board limit)
  show ?case
  proof (cases "find_empty board")
    case (Inl e)
    with 1(1,3) show ?thesis by (simp add: count_solutions.psimps)
  next
    case (Inr spot)
    show ?thesis
    proof (cases spot)
      case None
      with Inr 1(1,3) show ?thesis by (simp add: count_solutions.psimps)
    next
      case (Some p)
      obtain r c where p: "p = (r, c)" by (cases p)
      from Inr Some p have fe: "find_empty board = Inr (Some (r, c))" by simp
      with 1(1,3) have l: "count_loop board limit r c 0 [1..9] = Inr (n, board')"
        by (simp add: count_solutions.psimps)
      from 1(2) [OF fe refl refl find_empty_Some [OF fe] l] show ?thesis .
    qed
  qed
next
  case (2 board limit r c cnt)
  from 2(3) 2(1) show ?case by (simp add: count_loop.psimps)
next
  case (3 board limit r c cnt num nums)
  show ?case
  proof (cases "is_safe board r c num")
    case (Inl e)
    with 3(1,6) show ?thesis by (simp add: count_loop.psimps)
  next
    case (Inr ok)
    show ?thesis
    proof (cases ok)
      case False
      with Inr have safe: "is_safe board r c num = Inr False" by simp
      with 3(1,6) have "count_loop board limit r c cnt nums = Inr (n, board')"
        by (simp add: count_loop.psimps)
      from 3(4) [OF safe refl 3(5) this] show ?thesis .
    next
      case True
      with Inr have safe: "is_safe board r c num = Inr True" by simp
      with 3(1,6) obtain board1 m board2 board3 where
        s1: "set_cell board r c num = Inr board1" and
        s2: "count_solutions board1 limit = Inr (m, board2)" and
        s3: "set_cell board2 r c 0 = Inr board3" and
        s4: "if cnt + m \<ge> limit then board' = board3
             else count_loop board3 limit r c (cnt + m) nums = Inr (n, board')"
        by (auto simp: count_loop.psimps split: sum.splits if_splits)
      from 3(2) [OF safe refl s1 s2] have b2: "board2 = board1" .
      from set_cell_undo [OF 3(5) s1 s3 [unfolded b2]] have b3: "board3 = board" .
      show ?thesis
      proof (cases "cnt + m \<ge> limit")
        case True
        with s4 b3 show ?thesis by simp
      next
        case False
        with s4 have l: "count_loop board3 limit r c (cnt + m) nums = Inr (n, board')" by simp
        from False have nl: "\<not> limit \<le> cnt + m" .
        have c3: "cell board3 r c = Inr 0" using b3 3(5) by simp
        from 3(3) [OF safe refl s1 s2 refl s3 nl c3 l] b3 show ?thesis by simp
      qed
    qed
  qed
qed

definition count_measure1 ::
    "Board \<times> int + Board \<times> int \<times> nat \<times> nat \<times> int \<times> int list \<Rightarrow> nat" where
  "count_measure1 x =
     (case x of
        Inl (board, limit) \<Rightarrow> 2 * zeros board + 1
      | Inr (board, limit, r, c, cnt, nums) \<Rightarrow>
          2 * (zeros board + (if cell board r c = Inr 0 then 0 else 1)) + (if 0 \<in> set nums then 2 else 0))"

definition count_measure2 ::
    "Board \<times> int + Board \<times> int \<times> nat \<times> nat \<times> int \<times> int list \<Rightarrow> nat" where
  "count_measure2 x = (case x of Inl _ \<Rightarrow> 0 | Inr (board, limit, r, c, cnt, nums) \<Rightarrow> length nums)"

termination count_solutions
proof (relation "measures [count_measure1, count_measure2]", goal_cases)
  case 1
  show ?case by simp
next
  case (2 board limit b x r c)
  then have "cell board r c = Inr 0" by (simp add: find_empty_Some)
  then show ?case by (simp add: count_measure1_def)
next
  case (3 board limit r c cnt num nums ok board1)
  from zeros_set_cell [OF 3(3)] obtain w where w: "cell board r c = Inr w"
    and z: "zeros board1 + (if w = 0 then 1 else 0) = zeros board + (if num = 0 then 1 else 0)"
    by blast
  have "count_measure1 (Inl (board1, limit)) < count_measure1 (Inr (board, limit, r, c, cnt, num # nums))"
    using z by (cases "w = 0"; cases "num = 0") (simp_all add: count_measure1_def w)
  then show ?case by simp
next
  case (4 board limit r c cnt num nums ok board1 res m board2 board3)
  then have s1: "set_cell board r c num = Inr board1"
    and s2: "count_solutions board1 limit = Inr (m, board2)"
    and s3: "set_cell board2 r c 0 = Inr board3"
    and d: "count_solutions_count_loop_dom (Inl (board1, limit))"
    by simp_all
  from count_board_partial(1) [OF d s2] have b2: "board2 = board1" .
  from set_cell_twice [OF s1 s3 [unfolded b2]] have s: "set_cell board r c 0 = Inr board3" .
  from zeros_set_cell [OF s] obtain w where w: "cell board r c = Inr w"
    and z: "zeros board3 + (if w = 0 then 1 else 0) = zeros board + 1"
    by auto
  have "count_measure1 (Inr (board3, limit, r, c, cnt + m, nums))
          \<le> count_measure1 (Inr (board, limit, r, c, cnt, num # nums))"
    using z by (cases "w = 0") (simp_all add: count_measure1_def w set_cell_cell0 [OF s])
  moreover have "count_measure2 (Inr (board3, limit, r, c, cnt + m, nums))
          < count_measure2 (Inr (board, limit, r, c, cnt, num # nums))"
    by (simp add: count_measure2_def)
  ultimately show ?case by auto
next
  case (5 board limit r c cnt num nums ok)
  then show ?case by (simp add: count_measure1_def count_measure2_def)
qed

subsection \<open>The random source\<close>

text \<open>
  \<open>random.shuffle(xs)\<close> leaves \<open>xs\<close> in an order that the random source decides. The
  source is the list of the orders it will deliver, one for each call; an entry that is
  not a rearrangement of the list being shuffled, and a source with no entry left, leave
  the list in the order it has, which is itself an order \<open>shuffle\<close> may produce.
\<close>

definition shuffle :: "'a list list \<Rightarrow> 'a list \<Rightarrow> 'a list \<times> 'a list list" where
  "shuffle rnd xs =
     (case rnd of
        [] \<Rightarrow> (xs, [])
      | p # rnd' \<Rightarrow> (if mset p = mset xs then p else xs, rnd'))"

lemma shuffle_mset: "shuffle rnd xs = (ys, rnd') \<Longrightarrow> mset ys = mset xs"
  by (auto simp: shuffle_def split: list.splits if_splits)

lemma shuffle_length: "shuffle rnd xs = (ys, rnd') \<Longrightarrow> length ys = length xs"
  by (drule shuffle_mset) (rule mset_eq_length)

subsection \<open>\<open>generate_full_board\<close>\<close>

text \<open>
  \<open>fill_cell\<close> is a closure over \<open>board\<close> and \<open>nums\<close>: both are shared by all its
  invocations and changed in place, so both are part of the state, with the random
  source. \<open>fill_loop\<close> is the loop \<open>for n in nums\<close>: Python's list iterator keeps the
  list and a position \<open>i\<close>, and reads \<open>nums[i]\<close> from the list as it is at that moment,
  after whatever the invocations below have shuffled it into.
\<close>

type_synonym fill_state = "Board \<times> int list \<times> int list list"

function fill_cell :: "nat \<Rightarrow> fill_state \<Rightarrow> error + (bool \<times> fill_state)"
  and fill_loop :: "nat \<Rightarrow> nat \<Rightarrow> fill_state \<Rightarrow> error + (bool \<times> fill_state)" where
  "fill_cell idx (board, nums, rnd) =
     (if idx = 81 then Inr (True, (board, nums, rnd))
      else case shuffle rnd nums of (nums1, rnd1) \<Rightarrow> fill_loop idx 0 (board, nums1, rnd1))"
| "fill_loop idx i (board, nums, rnd) =
     (if i < length nums then
        (case is_safe board (idx div 9) (idx mod 9) (nums ! i) of
           Inl e \<Rightarrow> Inl e
         | Inr False \<Rightarrow> fill_loop idx (i + 1) (board, nums, rnd)
         | Inr True \<Rightarrow>
             (case set_cell board (idx div 9) (idx mod 9) (nums ! i) of
                Inl e \<Rightarrow> Inl e
              | Inr board1 \<Rightarrow>
                  (case fill_cell (idx + 1) (board1, nums, rnd) of
                     Inl e \<Rightarrow> Inl e
                   | Inr (True, st) \<Rightarrow> Inr (True, st)
                   | Inr (False, (board2, nums2, rnd2)) \<Rightarrow>
                       (case set_cell board2 (idx div 9) (idx mod 9) 0 of
                          Inl e \<Rightarrow> Inl e
                        | Inr board3 \<Rightarrow> fill_loop idx (i + 1) (board3, nums2, rnd2)))))
      else Inr (False, (board, nums, rnd)))"
  by pat_completeness auto

lemma set_cell_length: "set_cell board r c v = Inr board' \<Longrightarrow> length board' = length board"
  by (auto simp: set_cell_def split: if_splits)

lemma is_safe_row: "is_safe board r c v = Inr ok \<Longrightarrow> r < length board"
  by (auto simp: is_safe_def split: if_splits)

lemma fill_lengths_partial:
  "fill_cell_fill_loop_dom (Inl (idx, st)) \<Longrightarrow> fill_cell idx st = Inr (ok, st') \<Longrightarrow>
     length (fst st') = length (fst st) \<and> length (fst (snd st')) = length (fst (snd st))"
  "fill_cell_fill_loop_dom (Inr (idx, i, st)) \<Longrightarrow> fill_loop idx i st = Inr (ok, st') \<Longrightarrow>
     length (fst st') = length (fst st) \<and> length (fst (snd st')) = length (fst (snd st))"
proof (induction idx st and idx i st arbitrary: ok st' and ok st'
       rule: fill_cell_fill_loop.pinduct)
  case (1 idx board nums rnd)
  show ?case
  proof (cases "idx = 81")
    case True
    with 1(1,3) show ?thesis by (auto simp: fill_cell.psimps)
  next
    case False
    obtain nums1 rnd1 where sh: "shuffle rnd nums = (nums1, rnd1)" by (cases "shuffle rnd nums")
    with False 1(1,3) have "fill_loop idx 0 (board, nums1, rnd1) = Inr (ok, st')"
      by (simp add: fill_cell.psimps)
    from 1(2) [OF False sh [symmetric] this] shuffle_length [OF sh] show ?thesis by simp
  qed
next
  case (2 idx i board nums rnd)
  let ?r = "idx div 9" and ?c = "idx mod 9"
  show ?case
  proof (cases "i < length nums")
    case False
    with 2(1,5) show ?thesis by (auto simp: fill_loop.psimps)
  next
    case less: True
    show ?thesis
    proof (cases "is_safe board ?r ?c (nums ! i)")
      case (Inl e)
      with less 2(1,5) show ?thesis by (simp add: fill_loop.psimps)
    next
      case (Inr safe)
      show ?thesis
      proof (cases safe)
        case False
        with Inr have s: "is_safe board ?r ?c (nums ! i) = Inr False" by simp
        with less 2(1,5) have "fill_loop idx (i + 1) (board, nums, rnd) = Inr (ok, st')"
          by (simp add: fill_loop.psimps)
        from 2(4) [OF less s refl this] show ?thesis .
      next
        case True
        with Inr have s: "is_safe board ?r ?c (nums ! i) = Inr True" by simp
        with less 2(1,5) obtain board1 res where
          s1: "set_cell board ?r ?c (nums ! i) = Inr board1" and
          s2: "fill_cell (idx + 1) (board1, nums, rnd) = Inr res"
          by (auto simp: fill_loop.psimps split: sum.splits)
        obtain ok2 board2 nums2 rnd2 where res: "res = (ok2, (board2, nums2, rnd2))"
          by (cases res) auto
        from 2(2) [OF less s refl s1 s2 [unfolded res]] set_cell_length [OF s1]
        have l2: "length board2 = length board" "length nums2 = length nums" by simp_all
        show ?thesis
        proof (cases ok2)
          case True
          with less s s1 s2 res 2(1,5) have "st' = (board2, nums2, rnd2)"
            by (simp add: fill_loop.psimps)
          with l2 show ?thesis by simp
        next
          case False
          with less s s1 s2 res 2(1,5) obtain board3 where
            s3: "set_cell board2 ?r ?c 0 = Inr board3" and
            s4: "fill_loop idx (i + 1) (board3, nums2, rnd2) = Inr (ok, st')"
            by (auto simp: fill_loop.psimps split: sum.splits)
          from s2 res False have s2': "fill_cell (idx + 1) (board1, nums, rnd) = Inr (False, board2, nums2, rnd2)"
            by simp
          from 2(3) [OF less s refl s1 s2' refl refl refl refl s3 s4] set_cell_length [OF s3] l2
          show ?thesis by simp
        qed
      qed
    qed
  qed
qed

definition fill_measure1 :: "nat \<times> fill_state + nat \<times> nat \<times> fill_state \<Rightarrow> nat" where
  "fill_measure1 x =
     (case x of
        Inl (idx, board, nums, rnd) \<Rightarrow> 9 * length board - idx
      | Inr (idx, i, board, nums, rnd) \<Rightarrow> 9 * length board - idx)"

definition fill_measure2 :: "nat \<times> fill_state + nat \<times> nat \<times> fill_state \<Rightarrow> nat" where
  "fill_measure2 x =
     (case x of
        Inl (idx, board, nums, rnd) \<Rightarrow> length nums + 1
      | Inr (idx, i, board, nums, rnd) \<Rightarrow> length nums - i)"

termination fill_cell
proof (relation "measures [fill_measure1, fill_measure2]", goal_cases)
  case 1
  show ?case by simp
next
  case (2 idx board nums rnd nums1 rnd1)
  then have "shuffle rnd nums = (nums1, rnd1)" by simp
  from shuffle_length [OF this] show ?case by (simp add: fill_measure1_def fill_measure2_def)
next
  case (3 idx i board nums rnd safe board1)
  from is_safe_row [OF 3(2)] have "idx < 9 * length board" by simp
  then have "9 * length board - Suc idx < 9 * length board - idx" by arith
  with set_cell_length [OF 3(4)] show ?case by (simp add: fill_measure1_def)
next
  case (4 idx i board nums rnd safe board1 res ok2 st board2 st2 nums2 rnd2 board3)
  then have s1: "set_cell board (idx div 9) (idx mod 9) (nums ! i) = Inr board1"
    and s2: "fill_cell (idx + 1) (board1, nums, rnd) = Inr (False, (board2, nums2, rnd2))"
    and s3: "set_cell board2 (idx div 9) (idx mod 9) 0 = Inr board3"
    and d: "fill_cell_fill_loop_dom (Inl (idx + 1, board1, nums, rnd))"
    and less: "i < length nums"
    by simp_all
  from fill_lengths_partial(1) [OF d s2] set_cell_length [OF s1] set_cell_length [OF s3]
  have "length board3 = length board" "length nums2 = length nums" by simp_all
  with less show ?case by (simp add: fill_measure1_def fill_measure2_def)
next
  case (5 idx i board nums rnd safe)
  then show ?case by (simp add: fill_measure1_def fill_measure2_def)
qed

text \<open>The board that \<open>generate_full_board\<close> returns, whatever \<open>fill_cell(0)\<close> answered.\<close>

definition generate_full_board :: "int list list \<Rightarrow> error + Board" where
  "generate_full_board rnd =
     (case fill_cell 0 (replicate 9 (replicate 9 0), [1..9], rnd) of
        Inl e \<Rightarrow> Inl e
      | Inr (ok, (board, nums, rnd')) \<Rightarrow> Inr board)"

subsection \<open>\<open>make_puzzle\<close>\<close>

text \<open>
  \<open>make_puzzle_loop\<close> is the loop over the shuffled cells. The count runs on a copy
  \<open>temp\<close> of the puzzle, so what it leaves in \<open>temp\<close> is dropped.
\<close>

fun make_puzzle_loop :: "Board \<Rightarrow> int \<Rightarrow> int \<Rightarrow> (nat \<times> nat) list \<Rightarrow> error + Board" where
  "make_puzzle_loop puzzle holes removed [] = Inr puzzle"
| "make_puzzle_loop puzzle holes removed ((r, c) # cells) =
     (if removed \<ge> holes then Inr puzzle
      else case cell puzzle r c of
        Inl e \<Rightarrow> Inl e
      | Inr backup \<Rightarrow>
          (case set_cell puzzle r c 0 of
             Inl e \<Rightarrow> Inl e
           | Inr puzzle1 \<Rightarrow>
               (case count_solutions puzzle1 2 of
                  Inl e \<Rightarrow> Inl e
                | Inr (n, temp) \<Rightarrow>
                    if n = 1 then make_puzzle_loop puzzle1 holes (removed + 1) cells
                    else (case set_cell puzzle1 r c backup of
                            Inl e \<Rightarrow> Inl e
                          | Inr puzzle2 \<Rightarrow> make_puzzle_loop puzzle2 holes removed cells))))"

definition make_puzzle :: "Board \<Rightarrow> int \<Rightarrow> (nat \<times> nat) list list \<Rightarrow> error + Board" where
  "make_puzzle full holes rnd =
     (case shuffle rnd all_cells of (cells, rnd') \<Rightarrow> make_puzzle_loop full holes 0 cells)"

section \<open>Boards\<close>

text \<open>A board is nine rows of nine cells; its values are the digits and \<open>0\<close>.\<close>

definition is_board :: "Board \<Rightarrow> bool" where
  "is_board board = (length board = 9 \<and> (\<forall>row \<in> set board. length row = 9))"

definition in_range :: "Board \<Rightarrow> bool" where
  "in_range board = (\<forall>row \<in> set board. \<forall>v \<in> set row. 0 \<le> v \<and> v \<le> 9)"

text \<open>No cell is empty.\<close>

definition filled :: "Board \<Rightarrow> bool" where
  "filled board = (\<forall>row \<in> set board. 0 \<notin> set row)"

text \<open>The board with cell \<open>(r, c)\<close> holding \<open>v\<close>.\<close>

definition put :: "Board \<Rightarrow> nat \<Rightarrow> nat \<Rightarrow> int \<Rightarrow> Board" where
  "put board r c v = board[r := (board ! r)[c := v]]"

lemma is_boardD: "is_board board \<Longrightarrow> length board = 9"
  "is_board board \<Longrightarrow> r < 9 \<Longrightarrow> length (board ! r) = 9"
  by (auto simp: is_board_def)

lemma filled_iff:
  assumes "is_board board"
  shows "filled board \<longleftrightarrow> (\<forall>r<9. \<forall>c<9. board ! r ! c \<noteq> 0)"
proof
  assume f: "filled board"
  show "\<forall>r<9. \<forall>c<9. board ! r ! c \<noteq> 0"
  proof (intro allI impI)
    fix r c :: nat assume "r < 9" "c < 9"
    with assms have "board ! r \<in> set board" "board ! r ! c \<in> set (board ! r)"
      by (simp_all add: is_boardD)
    with f show "board ! r ! c \<noteq> 0" unfolding filled_def by metis
  qed
next
  assume n: "\<forall>r<9. \<forall>c<9. board ! r ! c \<noteq> 0"
  show "filled board" unfolding filled_def
  proof (intro ballI notI)
    fix row assume "row \<in> set board" "0 \<in> set row"
    then obtain r c where "r < length board" "row = board ! r" "c < length row" "row ! c = 0"
      unfolding in_set_conv_nth by blast
    with assms n show False by (auto simp: is_boardD)
  qed
qed

lemma cell_board: "is_board board \<Longrightarrow> r < 9 \<Longrightarrow> c < 9 \<Longrightarrow> cell board r c = Inr (board ! r ! c)"
  by (simp add: cell_def is_boardD)

lemma set_cell_board:
  "is_board board \<Longrightarrow> r < 9 \<Longrightarrow> c < 9 \<Longrightarrow> set_cell board r c v = Inr (put board r c v)"
  by (simp add: set_cell_def put_def is_boardD)

lemma is_board_put: "is_board board \<Longrightarrow> is_board (put board r c v)"
proof (cases "r < 9")
  case False
  assume b: "is_board board"
  with False have "length board \<le> r" by (simp add: is_boardD)
  then have "put board r c v = board" unfolding put_def by (rule list_update_beyond)
  with b show ?thesis by simp
next
  case True
  assume b: "is_board board"
  with True have "length ((board ! r)[c := v]) = 9" by (simp add: is_boardD)
  moreover have "set (put board r c v) \<subseteq> insert ((board ! r)[c := v]) (set board)"
    unfolding put_def by (rule set_update_subset_insert)
  ultimately have "\<forall>row \<in> set (put board r c v). length row = 9"
    using b by (auto simp: is_board_def)
  with b show ?thesis by (simp add: is_board_def put_def)
qed

lemma put_nth:
  "is_board board \<Longrightarrow> r < 9 \<Longrightarrow> c < 9 \<Longrightarrow> r' < 9 \<Longrightarrow> c' < 9 \<Longrightarrow>
   put board r c v ! r' ! c' = (if r' = r \<and> c' = c then v else board ! r' ! c')"
  by (auto simp: put_def is_boardD nth_list_update)

lemma board_eqI:
  assumes "is_board a" "is_board b" "\<And>r c. r < 9 \<Longrightarrow> c < 9 \<Longrightarrow> a ! r ! c = b ! r ! c"
  shows "a = b"
proof (rule nth_equalityI)
  show "length a = length b" using assms by (simp add: is_boardD)
next
  fix r assume "r < length a"
  with assms have r: "r < 9" by (simp add: is_boardD)
  show "a ! r = b ! r"
    by (rule nth_equalityI) (use assms r in \<open>simp_all add: is_boardD\<close>)
qed

lemma put_same: "is_board board \<Longrightarrow> r < 9 \<Longrightarrow> c < 9 \<Longrightarrow> board ! r ! c = v \<Longrightarrow> put board r c v = board"
  by (rule board_eqI) (simp_all add: is_board_put put_nth)

lemma put_put:
  "is_board board \<Longrightarrow> r < 9 \<Longrightarrow> c < 9 \<Longrightarrow> put (put board r c v) r c w = put board r c w"
  by (rule board_eqI) (simp_all add: is_board_put put_nth)

subsection \<open>The scans on a board\<close>

lemma first_hit_board:
  "is_board board \<Longrightarrow> \<forall>(r, c) \<in> set cells. r < 9 \<and> c < 9 \<Longrightarrow>
   first_hit board P cells = Inr (find (\<lambda>(r, c). P (board ! r ! c)) cells)"
  by (induction board P cells rule: first_hit.induct) (auto simp: cell_board)

lemma all_cells_eq: "all_cells = map (\<lambda>i. (i div 9, i mod 9)) [0..<81]"
  unfolding all_cells_def by code_simp

lemma set_all_cells: "set all_cells = {(r, c). r < 9 \<and> c < 9}"
  by (auto simp: all_cells_def)

lemma find_empty_board:
  "is_board board \<Longrightarrow> find_empty board = Inr (find (\<lambda>(r, c). board ! r ! c = 0) all_cells)"
  unfolding find_empty_def by (rule first_hit_board) (auto simp: set_all_cells)

lemma find_empty_None:
  assumes "is_board board"
  shows "find_empty board = Inr None \<longleftrightarrow> (\<forall>r<9. \<forall>c<9. board ! r ! c \<noteq> 0)"
  by (auto simp: find_empty_board [OF assms] find_None_iff set_all_cells)

lemma find_empty_Some_iff:
  assumes "is_board board"
  shows "find_empty board = Inr (Some (r, c)) \<longleftrightarrow>
           r < 9 \<and> c < 9 \<and> board ! r ! c = 0 \<and>
           (\<forall>r'<9. \<forall>c'<9. r' < r \<or> (r' = r \<and> c' < c) \<longrightarrow> board ! r' ! c' \<noteq> 0)"
    (is "?L \<longleftrightarrow> ?R")
proof
  assume ?L
  then have f: "find (\<lambda>(r, c). board ! r ! c = 0) all_cells = Some (r, c)"
    by (simp add: find_empty_board [OF assms])
  then obtain i where i: "i < 81" "board ! (i div 9) ! (i mod 9) = 0" "(r, c) = (i div 9, i mod 9)"
    and before: "\<forall>j<i. board ! (j div 9) ! (j mod 9) \<noteq> 0"
    unfolding find_Some_iff all_cells_eq by auto
  from i(3) have rc: "r = i div 9" "c = i mod 9" by simp_all
  have e: "i = 9 * r + c" unfolding rc by simp
  from i(1) e have r9: "r < 9" by arith
  have c9: "c < 9" unfolding rc by simp
  have "board ! r' ! c' \<noteq> 0" if "r' < 9" "c' < 9" "r' < r \<or> (r' = r \<and> c' < c)" for r' c'
  proof -
    from that(2,3) have "9 * r' + c' < i" unfolding e by arith
    with before have "board ! ((9 * r' + c') div 9) ! ((9 * r' + c') mod 9) \<noteq> 0" by blast
    with that(2) show ?thesis by simp
  qed
  with i(2) r9 c9 show ?R unfolding rc by blast
next
  assume R: ?R
  then have r9: "r < 9" and c9: "c < 9" and z: "board ! r ! c = 0"
    and prior: "\<And>r' c'. r' < 9 \<Longrightarrow> c' < 9 \<Longrightarrow> r' < r \<or> (r' = r \<and> c' < c) \<Longrightarrow> board ! r' ! c' \<noteq> 0"
    by blast+
  let ?i = "9 * r + c"
  from r9 c9 have i81: "?i < 81" by arith
  from c9 have dm: "?i div 9 = r" "?i mod 9 = c" by simp_all
  have nz: "board ! (j div 9) ! (j mod 9) \<noteq> 0" if "j < ?i" for j
  proof -
    define a b where "a = j div 9" and "b = j mod 9"
    have j: "j = 9 * a + b" and b9: "b < 9" unfolding a_def b_def by simp_all
    from that r9 c9 have a9: "a < 9" unfolding j by arith
    from that b9 c9 have "a < r \<or> (a = r \<and> b < c)" unfolding j by arith
    from prior [OF a9 b9 this] show ?thesis unfolding a_def b_def .
  qed
  have "\<exists>i<length (map (\<lambda>i. (i div 9, i mod 9)) [0..<81]).
          (case map (\<lambda>i. (i div 9, i mod 9)) [0..<81] ! i of (r, c) \<Rightarrow> board ! r ! c = 0) \<and>
          (r, c) = map (\<lambda>i. (i div 9, i mod 9)) [0..<81] ! i \<and>
          (\<forall>j<i. \<not> (case map (\<lambda>i. (i div 9, i mod 9)) [0..<81] ! j of (r, c) \<Rightarrow> board ! r ! c = 0))"
  proof (intro exI [of _ ?i] conjI allI impI)
    show "?i < length (map (\<lambda>i. (i div 9, i mod 9)) [0..<81])" using i81 by simp
    show "case map (\<lambda>i. (i div 9, i mod 9)) [0..<81] ! ?i of (r, c) \<Rightarrow> board ! r ! c = 0"
      using i81 z dm by simp
    show "(r, c) = map (\<lambda>i. (i div 9, i mod 9)) [0..<81] ! ?i" using i81 dm by simp
    fix j assume "j < ?i"
    with nz [OF this] i81
    show "\<not> (case map (\<lambda>i. (i div 9, i mod 9)) [0..<81] ! j of (r, c) \<Rightarrow> board ! r ! c = 0)"
      by simp
  qed
  then have "find (\<lambda>(r, c). board ! r ! c = 0) all_cells = Some (r, c)"
    unfolding find_Some_iff all_cells_eq .
  then show ?L by (simp add: find_empty_board [OF assms])
qed

lemma first_hit_None_iff:
  assumes "is_board board" "\<forall>(r, c) \<in> set cells. r < 9 \<and> c < 9"
  shows "first_hit board P cells = Inr None \<longleftrightarrow> (\<forall>(r, c) \<in> set cells. \<not> P (board ! r ! c))"
  by (auto simp: first_hit_board [OF assms] find_None_iff)

lemma first_hit_cases:
  assumes "is_board board" "\<forall>(r, c) \<in> set cells. r < 9 \<and> c < 9"
  obtains "first_hit board P cells = Inr None" | p where "first_hit board P cells = Inr (Some p)"
  using first_hit_board [OF assms, of P] by (cases "find (\<lambda>(r, c). P (board ! r ! c)) cells") auto

subsection \<open>What \<open>is_safe\<close> looks at\<close>

definition in_row :: "Board \<Rightarrow> nat \<Rightarrow> int \<Rightarrow> bool" where
  "in_row board row v = (\<exists>c \<in> {0..<9}. board ! row ! c = v)"

definition in_col :: "Board \<Rightarrow> nat \<Rightarrow> int \<Rightarrow> bool" where
  "in_col board col v = (\<exists>r \<in> {0..<9}. board ! r ! col = v)"

definition in_box :: "Board \<Rightarrow> nat \<Rightarrow> nat \<Rightarrow> int \<Rightarrow> bool" where
  "in_box board row col v =
     (\<exists>r \<in> {0..<9}. \<exists>c \<in> {0..<9}. r div 3 = row div 3 \<and> c div 3 = col div 3 \<and> board ! r ! c = v)"

lemma in_box_cells:
  "(r, c) \<in> set (box_cells box_row box_col) \<longleftrightarrow>
     box_row \<le> r \<and> r < box_row + 3 \<and> box_col \<le> c \<and> c < box_col + 3"
  by (auto simp: box_cells_def image_iff)

lemma div3_range: "3 * (a div 3) \<le> b \<and> b < 3 * (a div 3) + 3 \<longleftrightarrow> b div 3 = a div (3::nat)"
proof -
  define k q m where "k = a div 3" and "q = b div 3" and "m = b mod 3"
  have "b = 3 * q + m" and "m < 3" unfolding q_def m_def by simp_all
  then have "3 * k \<le> b \<and> b < 3 * k + 3 \<longleftrightarrow> q = k" by arith
  then show ?thesis unfolding k_def q_def .
qed

lemma div3_less9: "b div 3 = a div 3 \<Longrightarrow> a < 9 \<Longrightarrow> b < (9::nat)"
proof -
  assume e: "b div 3 = a div 3" and a: "a < 9"
  define k q m n where "k = a div 3" and "q = b div 3" and "m = b mod 3" and "n = a mod 3"
  have "b = 3 * q + m" "m < 3" "a = 3 * k + n" unfolding k_def q_def m_def n_def by simp_all
  moreover from e have "q = k" unfolding k_def q_def .
  ultimately show ?thesis using a by arith
qed

lemma set_box_cells:
  "set (box_cells (3 * (row div 3)) (3 * (col div 3))) =
     {(r, c). r div 3 = row div 3 \<and> c div 3 = col div 3}"
proof (rule set_eqI)
  fix p :: "nat \<times> nat"
  obtain r c where p: "p = (r, c)" by (cases p)
  have "(r, c) \<in> set (box_cells (3 * (row div 3)) (3 * (col div 3))) \<longleftrightarrow>
          r div 3 = row div 3 \<and> c div 3 = col div 3"
    unfolding in_box_cells using div3_range [of row r] div3_range [of col c] by blast
  then show "p \<in> set (box_cells (3 * (row div 3)) (3 * (col div 3))) \<longleftrightarrow>
               p \<in> {(r, c). r div 3 = row div 3 \<and> c div 3 = col div 3}"
    unfolding p by simp
qed

lemma is_safe_board:
  assumes b: "is_board board" and row: "row < 9" and col: "col < 9"
  shows "is_safe board row col v =
           Inr (\<not> (in_row board row v \<or> in_col board col v \<or> in_box board row col v))"
proof -
  let ?colc = "map (\<lambda>x. (x, col)) [0..<9]"
  let ?boxc = "box_cells (3 * (row div 3)) (3 * (col div 3))"
  have r1: "v \<in> set (board ! row) \<longleftrightarrow> in_row board row v"
    using b row by (auto simp: in_row_def in_set_conv_nth is_boardD)
  have colr: "\<forall>(r, c) \<in> set ?colc. r < 9 \<and> c < 9" using col by auto
  have boxr: "\<forall>(r, c) \<in> set ?boxc. r < 9 \<and> c < 9"
    unfolding set_box_cells using row col by (auto dest: div3_less9)
  have r2: "first_hit board (\<lambda>w. w = v) ?colc = Inr None \<longleftrightarrow> \<not> in_col board col v"
    unfolding first_hit_None_iff [OF b colr] by (auto simp: in_col_def)
  have r3: "first_hit board (\<lambda>w. w = v) ?boxc = Inr None \<longleftrightarrow> \<not> in_box board row col v"
  proof -
    have "in_box board row col v \<longleftrightarrow>
            (\<exists>r c. r div 3 = row div 3 \<and> c div 3 = col div 3 \<and> board ! r ! c = v)"
      using div3_less9 [OF _ row] div3_less9 [OF _ col] unfolding in_box_def
      by (metis atLeastLessThan_iff zero_le)
    then show ?thesis unfolding first_hit_None_iff [OF b boxr] set_box_cells by auto
  qed
  show ?thesis
  proof (cases "in_row board row v")
    case True
    with r1 b row show ?thesis by (simp add: is_safe_def is_boardD)
  next
    case nrow: False
    show ?thesis
    proof (rule first_hit_cases [OF b colr, of "\<lambda>w. w = v"])
      fix p assume h: "first_hit board (\<lambda>w. w = v) ?colc = Inr (Some p)"
      with r2 have "in_col board col v" by auto
      with h nrow r1 b row show ?thesis by (simp add: is_safe_def is_boardD)
    next
      assume h: "first_hit board (\<lambda>w. w = v) ?colc = Inr None"
      with r2 have ncol: "\<not> in_col board col v" by simp
      show ?thesis
      proof (rule first_hit_cases [OF b boxr, of "\<lambda>w. w = v"])
        fix p assume h2: "first_hit board (\<lambda>w. w = v) ?boxc = Inr (Some p)"
        with r3 have "in_box board row col v" by auto
        with h h2 nrow r1 b row show ?thesis by (simp add: is_safe_def is_boardD)
      next
        assume h2: "first_hit board (\<lambda>w. w = v) ?boxc = Inr None"
        with r3 have "\<not> in_box board row col v" by simp
        with h h2 nrow ncol r1 b row show ?thesis by (simp add: is_safe_def is_boardD)
      qed
    qed
  qed
qed

subsection \<open>Example boards\<close>

text \<open>A solved grid, the same grid with three cells emptied, and a grid of ones.\<close>

definition solved_board :: Board where
  "solved_board =
    [[1, 2, 3, 4, 5, 6, 7, 8, 9],
     [4, 5, 6, 7, 8, 9, 1, 2, 3],
     [7, 8, 9, 1, 2, 3, 4, 5, 6],
     [2, 3, 4, 5, 6, 7, 8, 9, 1],
     [5, 6, 7, 8, 9, 1, 2, 3, 4],
     [8, 9, 1, 2, 3, 4, 5, 6, 7],
     [3, 4, 5, 6, 7, 8, 9, 1, 2],
     [6, 7, 8, 9, 1, 2, 3, 4, 5],
     [9, 1, 2, 3, 4, 5, 6, 7, 8]]"

definition holes_board :: Board where
  "holes_board =
    [[1, 2, 3, 4, 5, 6, 7, 8, 9],
     [4, 5, 0, 7, 8, 9, 1, 2, 3],
     [7, 8, 9, 1, 2, 3, 4, 5, 6],
     [2, 3, 4, 5, 6, 7, 8, 9, 1],
     [5, 6, 7, 8, 0, 1, 2, 3, 4],
     [8, 9, 1, 2, 3, 4, 5, 6, 7],
     [3, 4, 5, 6, 7, 8, 9, 1, 2],
     [6, 7, 8, 9, 1, 2, 3, 4, 0],
     [9, 1, 2, 3, 4, 5, 6, 7, 8]]"

definition ones_board :: Board where
  "ones_board = replicate 9 (replicate 9 1)"

subsection \<open>The invariants of the data model\<close>

text \<open>
  The nine rows, nine columns and nine boxes, each as the list of its cells, and the values
  a board holds there.
\<close>

definition unit_cells :: "(nat \<times> nat) list list" where
  "unit_cells =
     map (\<lambda>r. map (\<lambda>c. (r, c)) [0..<9]) [0..<9] @
     map (\<lambda>c. map (\<lambda>r. (r, c)) [0..<9]) [0..<9] @
     map (\<lambda>k. box_cells (3 * (k div 3)) (3 * (k mod 3))) [0..<9]"

definition unit_values :: "Board \<Rightarrow> (nat \<times> nat) list \<Rightarrow> int list" where
  "unit_values board cells = map (\<lambda>(r, c). board ! r ! c) cells"

text \<open>Every row, column and box contains each of 1..9 exactly once.\<close>

definition valid_full :: "Board \<Rightarrow> bool" where
  "valid_full board =
     (\<forall>cells \<in> set unit_cells. \<forall>v \<in> set [1..9]. count_list (unit_values board cells) v = 1)"

text \<open>No two placed cells of a row, column or box share a value.\<close>

definition conflict_free :: "Board \<Rightarrow> bool" where
  "conflict_free board =
     (\<forall>cells \<in> set unit_cells. distinct (filter (\<lambda>v. v \<noteq> 0) (unit_values board cells)))"

subsection \<open>Evaluating the definitions on a given board\<close>

lemma upt_0_9: "[0..<9] = [0, 1, 2, 3, 4, 5, 6, 7, 8]"
  by code_simp

lemma upto_1_9: "[1..9] = [1, 2, 3, 4, 5, 6, 7, 8, 9]"
  by code_simp

lemma bex_0_9:
  "(\<exists>x \<in> {0..<9::nat}. P x) \<longleftrightarrow> P 0 \<or> P 1 \<or> P 2 \<or> P 3 \<or> P 4 \<or> P 5 \<or> P 6 \<or> P 7 \<or> P 8"
proof -
  have "{0..<9::nat} = {0, 1, 2, 3, 4, 5, 6, 7, 8}" by auto
  then show ?thesis by simp
qed

lemma box_cells_eq:
  "box_cells r c =
     [(r, c), (r, c + 1), (r, c + 2), (r + 1, c), (r + 1, c + 1), (r + 1, c + 2),
      (r + 2, c), (r + 2, c + 1), (r + 2, c + 2)]"
proof -
  have "[i..<i + 3] = [i, i + 1, i + 2]" for i :: nat
    by (simp add: upt_rec [of i] upt_rec [of "Suc i"] upt_rec [of "Suc (Suc i)"])
  then show ?thesis by (simp add: box_cells_def)
qed

lemma unit_cells_eq:
  "unit_cells =
     map (\<lambda>r. map (\<lambda>c. (r, c)) [0, 1, 2, 3, 4, 5, 6, 7, 8]) [0, 1, 2, 3, 4, 5, 6, 7, 8] @
     map (\<lambda>c. map (\<lambda>r. (r, c)) [0, 1, 2, 3, 4, 5, 6, 7, 8]) [0, 1, 2, 3, 4, 5, 6, 7, 8] @
     [box_cells 0 0, box_cells 0 3, box_cells 0 6, box_cells 3 0, box_cells 3 3, box_cells 3 6,
      box_cells 6 0, box_cells 6 3, box_cells 6 6]"
  by (simp add: unit_cells_def upt_0_9)

lemmas board_eval = valid_full_def conflict_free_def unit_cells_eq box_cells_eq unit_values_def
  upto_1_9 in_row_def in_col_def in_box_def bex_0_9

lemma ones_board_eq:
  "ones_board = [[1, 1, 1, 1, 1, 1, 1, 1, 1], [1, 1, 1, 1, 1, 1, 1, 1, 1], [1, 1, 1, 1, 1, 1, 1, 1, 1],
     [1, 1, 1, 1, 1, 1, 1, 1, 1], [1, 1, 1, 1, 1, 1, 1, 1, 1], [1, 1, 1, 1, 1, 1, 1, 1, 1],
     [1, 1, 1, 1, 1, 1, 1, 1, 1], [1, 1, 1, 1, 1, 1, 1, 1, 1], [1, 1, 1, 1, 1, 1, 1, 1, 1]]"
  unfolding ones_board_def by code_simp

lemma valid_full_solved_board: "valid_full solved_board"
  by (simp add: board_eval solved_board_def)

lemma not_valid_full_ones_board: "\<not> valid_full ones_board"
  by (simp add: board_eval ones_board_eq)

section \<open>The claims\<close>

text \<open>
  C9. On a 9x9 board \<open>find_empty\<close> raises nothing; it returns \<open>None\<close> exactly when no
  cell is 0, and it returns the cell \<open>(r, c)\<close> exactly when that cell is 0 and every cell
  before it in row-major order (an earlier row, or the same row and an earlier column) is
  not. It has no assignment: its result is a position only, and the board stays as it is.
\<close>

theorem find_empty_first_zero:
  assumes "is_board board"
  shows "find_empty board \<noteq> Inl e \<and>
         (find_empty board = Inr None \<longleftrightarrow> (\<forall>r<9. \<forall>c<9. board ! r ! c \<noteq> 0)) \<and>
         (find_empty board = Inr (Some (r, c)) \<longleftrightarrow>
            r < 9 \<and> c < 9 \<and> board ! r ! c = 0 \<and>
            (\<forall>r'<9. \<forall>c'<9. r' < r \<or> (r' = r \<and> c' < c) \<longrightarrow> board ! r' ! c' \<noteq> 0))"
proof (intro conjI)
  show "find_empty board \<noteq> Inl e" by (simp add: find_empty_board [OF assms])
  show "find_empty board = Inr None \<longleftrightarrow> (\<forall>r<9. \<forall>c<9. board ! r ! c \<noteq> 0)"
    by (rule find_empty_None [OF assms])
  show "find_empty board = Inr (Some (r, c)) \<longleftrightarrow>
            r < 9 \<and> c < 9 \<and> board ! r ! c = 0 \<and>
            (\<forall>r'<9. \<forall>c'<9. r' < r \<or> (r' = r \<and> c' < c) \<longrightarrow> board ! r' ! c' \<noteq> 0)"
    by (rule find_empty_Some_iff [OF assms])
qed

theorem find_empty_first_zero_witness:
  "is_board holes_board \<and> find_empty holes_board = Inr (Some (1, 2)) \<and>
   holes_board ! 1 ! 2 = 0 \<and> holes_board ! 0 ! 7 \<noteq> 0 \<and> holes_board ! 1 ! 1 \<noteq> 0"
proof -
  have b: "is_board holes_board" by code_simp
  have f: "find_empty holes_board = Inr (Some (1, 2))" by code_simp
  from find_empty_first_zero [OF b, of IndexError 1 2] f
  have z: "holes_board ! 1 ! 2 = 0"
    and prior: "\<forall>r'<9. \<forall>c'<9. r' < 1 \<or> (r' = 1 \<and> c' < 2) \<longrightarrow> holes_board ! r' ! c' \<noteq> 0"
    by blast+
  from prior [rule_format, of 0 7] have p1: "holes_board ! 0 ! 7 \<noteq> 0" by simp
  from prior [rule_format, of 1 1] have p2: "holes_board ! 1 ! 1 \<noteq> 0" by simp
  from b f z p1 p2 show ?thesis by simp
qed

text \<open>
  C5. On a 9x9 board, for a row and a column in 0..8 and any value (those of 1..9 among
  them), \<open>is_safe\<close> raises nothing and answers false exactly when the value stands
  somewhere in the row, somewhere in the column, or somewhere in the 3x3 box of the cell.
  It has no assignment: its result is a boolean only.
\<close>

theorem is_safe_row_col_box:
  assumes "is_board board" "row < 9" "col < 9"
  shows "is_safe board row col v =
           Inr (\<not> (in_row board row v \<or> in_col board col v \<or> in_box board row col v))"
  by (rule is_safe_board [OF assms])

theorem is_safe_row_col_box_witness:
  "is_board holes_board \<and> (1::nat) < 9 \<and> (2::nat) < 9 \<and>
   is_safe holes_board 1 2 6 = Inr True \<and> is_safe holes_board 1 2 7 = Inr False \<and>
   in_row holes_board 1 7 \<and> \<not> in_row holes_board 1 6 \<and> \<not> in_col holes_board 2 6 \<and>
   \<not> in_box holes_board 1 2 6"
proof -
  have b: "is_board holes_board" by code_simp
  have r1: "in_row holes_board 1 7" by (simp add: board_eval holes_board_def)
  have r2: "\<not> in_row holes_board 1 6" by (simp add: board_eval holes_board_def)
  have r3: "\<not> in_col holes_board 2 6" by (simp add: board_eval holes_board_def)
  have r4: "\<not> in_box holes_board 1 2 6" by (simp add: board_eval holes_board_def)
  note r = r1 r2 r3 r4
  from is_safe_row_col_box [OF b, of 1 2 6] is_safe_row_col_box [OF b, of 1 2 7] r b
  show ?thesis by simp
qed

text \<open>
  C10. On a 9x9 board with no cell 0, whatever its values, \<open>solve_backtracking\<close>
  returns true and \<open>count_solutions\<close> returns 1, for every limit, and both leave the board
  as it is: neither looks at the values already placed.
\<close>

theorem full_board_not_validated:
  assumes "is_board board" "filled board"
  shows "solve_backtracking board = Inr (True, board) \<and> count_solutions board limit = Inr (1, board)"
proof -
  from assms have "find_empty board = Inr None" by (simp add: find_empty_None filled_iff)
  then show ?thesis by simp
qed

theorem full_board_not_validated_witness:
  "is_board ones_board \<and> filled ones_board \<and> \<not> valid_full ones_board \<and>
   solve_backtracking ones_board = Inr (True, ones_board) \<and>
   count_solutions ones_board 2 = Inr (1, ones_board)"
proof -
  have b: "is_board ones_board" by code_simp
  have f: "filled ones_board" by code_simp
  note v = not_valid_full_ones_board
  from full_board_not_validated [OF b f, of 2] b f v show ?thesis by blast
qed

end
